theory Spec2Isabelle
  imports Main "HOL-Library.AList"
begin

section \<open>Python values, exceptions and effects\<close>

text \<open>
  The library \<^verbatim>\<open>scripts/lib.py\<close> is embedded function by function. A Python call
  that can raise returns a sum: \<open>Inl\<close> the exception that leaves the function,
  \<open>Inr\<close> the value returned. \<^verbatim>\<open>sys.exit(code)\<close> raises \<open>SystemExit code\<close>.
  Everything the code does to the outside (log records, processes started and
  killed, \<^verbatim>\<open>os.system\<close>) is appended, in program order, to a trace of effects that
  every function takes and returns.
\<close>

datatype pyval = PNone | PBool bool | PInt int | PStr string

datatype exception =
    SystemExit int
  | OSError
  | CalledProcessError
  | TimeoutExpired
  | UnboundLocalError string
  | KeyError string
  | TypeError
  | FileNotFoundError string
  | RecursionError
  | re_error
  | IndexError

datatype level = DEBUG | INFO | WARNING | ERROR

text \<open>
  A log message is either a string passed as it is (\<open>Text\<close>) or the Python
  expression \<^verbatim>\<open>fmt % args\<close> (\<open>Format fmt args\<close>), kept as the format string of the source
  and its arguments.
\<close>

datatype message = Text string | Format string "pyval list"

datatype effect =
    Log level message
  | Popen_bash string
  | Kill string
  | System string

type_synonym trace = "effect list"

definition RET_SUCCESS :: int where "RET_SUCCESS = 0"
definition RET_FAIL :: int where "RET_FAIL = 1"
definition RET_FATAL :: int where "RET_FATAL = - 1"

definition logging :: "level \<Rightarrow> message \<Rightarrow> trace \<Rightarrow> trace" where
  "logging lvl msg tr = tr @ [Log lvl msg]"

section \<open>Processes\<close>

text \<open>
  What a child process does is the environment's choice, not the library's. The
  environment \<open>sh\<close> maps the command line handed to \<^verbatim>\<open>/bin/bash\<close> to \<open>None\<close> when the
  shell cannot be started (\<^verbatim>\<open>subprocess.Popen\<close> raises \<^verbatim>\<open>OSError\<close>), and otherwise to
  what \<^verbatim>\<open>communicate(timeout = timeout_s)\<close> will observe: the process ends in time
  with its combined output and return code (\<open>Exits\<close>), or the output is still open
  when the timeout expires (\<open>TimesOut\<close>). In the second case the shell itself is
  either still running (\<open>TimesOut None\<close>), or it has already exited with some code
  while a process it started keeps the output open (\<open>TimesOut (Some rc)\<close>, as for
  the command \<^verbatim>\<open>sleep 3 & exit 3\<close>). The value of \<^verbatim>\<open>timeout_s\<close> reaches the model only
  through the log messages.

  \<^verbatim>\<open>Popen.kill\<close> is \<^verbatim>\<open>send_signal(SIGKILL)\<close>, which (CPython 3.9 and later) polls the
  child first: a child that has exited is reaped, its \<^verbatim>\<open>returncode\<close> is set and no
  signal is sent; a child that is running gets the signal and is not waited for, so
  its \<^verbatim>\<open>returncode\<close> stays \<^verbatim>\<open>None\<close>. The library calls \<^verbatim>\<open>kill\<close> only after
  \<^verbatim>\<open>TimeoutExpired\<close>.
\<close>

datatype behaviour = Exits string int | TimesOut "int option"

type_synonym shell = "string \<Rightarrow> behaviour option"

record popen =
  args :: string
  behaviour :: behaviour
  returncode :: "int option"

definition Popen :: "shell \<Rightarrow> string \<Rightarrow> trace \<Rightarrow> (exception + popen) \<times> trace" where
  "Popen sh a tr =
     (case sh a of
        None \<Rightarrow> (Inl OSError, tr @ [Popen_bash a])
      | Some b \<Rightarrow> (Inr \<lparr>args = a, behaviour = b, returncode = None\<rparr>, tr @ [Popen_bash a]))"

definition communicate :: "popen \<Rightarrow> (exception + string) \<times> popen" where
  "communicate ps =
     (case behaviour ps of
        Exits out rc \<Rightarrow> (Inr out, ps\<lparr>returncode := Some rc\<rparr>)
      | TimesOut exited \<Rightarrow> (Inl TimeoutExpired, ps))"

definition kill :: "popen \<Rightarrow> trace \<Rightarrow> popen \<times> trace" where
  "kill ps tr =
     (case returncode ps of
        Some rc \<Rightarrow> (ps, tr)
      | None \<Rightarrow>
          (case behaviour ps of
             TimesOut (Some rc) \<Rightarrow> (ps\<lparr>returncode := Some rc\<rparr>, tr)
           | TimesOut None \<Rightarrow> (ps, tr @ [Kill (args ps)])
           | Exits out rc \<Rightarrow> (ps, tr @ [Kill (args ps)])))"

definition system :: "string \<Rightarrow> trace \<Rightarrow> trace" where
  "system c tr = tr @ [System c]"

text \<open>
  The test \<^verbatim>\<open>rc and check_return_code and rc > 0\<close> of both executors: \<^verbatim>\<open>None\<close> and \<open>0\<close>
  are falsy.
\<close>

definition rc_is_error :: "int option \<Rightarrow> bool \<Rightarrow> bool" where
  "rc_is_error rc check_return_code =
     (case rc of None \<Rightarrow> False | Some r \<Rightarrow> r \<noteq> 0 \<and> check_return_code \<and> r > 0)"

section \<open>\<^verbatim>\<open>run_cmd\<close>\<close>

text \<open>Lines 126 to 133: the return-code check, once \<^verbatim>\<open>output\<close> is bound.\<close>

definition run_cmd_check ::
  "string \<Rightarrow> bool \<Rightarrow> bool \<Rightarrow> string \<Rightarrow> popen \<Rightarrow> trace \<Rightarrow> (exception + string) \<times> trace" where
  "run_cmd_check cmd exit_on_error check_return_code output ps tr =
     (case returncode ps of
        None \<Rightarrow> (Inr output, logging DEBUG (Text output) tr)
      | Some rc \<Rightarrow>
          if rc_is_error (Some rc) check_return_code then
            (let tr1 = logging INFO (Text output) tr;
                 tr2 = logging ERROR (Format ''ERROR return code: %d/%d, cmd:%s''
                         [PBool check_return_code, PInt rc, PStr cmd]) tr1
             in if exit_on_error then (Inl (SystemExit RET_FAIL), tr2)
                else (Inr output, logging DEBUG (Text output) tr2))
          else (Inr output, logging DEBUG (Text output) tr))"

text \<open>
  The handler of the first \<^verbatim>\<open>try\<close> names \<^verbatim>\<open>subprocess.CalledProcessError\<close>; any other
  exception of \<^verbatim>\<open>Popen\<close> leaves \<^verbatim>\<open>run_cmd\<close>. Inside the handler \<^verbatim>\<open>ps\<close> is read, which the
  failed assignment never bound.
\<close>

definition run_cmd ::
  "shell \<Rightarrow> string \<Rightarrow> int \<Rightarrow> bool \<Rightarrow> bool \<Rightarrow> trace \<Rightarrow> (exception + string) \<times> trace" where
  "run_cmd sh cmd timeout_s exit_on_error check_return_code tr =
     (case Popen sh (''exec '' @ cmd) (logging DEBUG (Text cmd) tr) of
        (Inl exc, tr1) \<Rightarrow>
          if exc = CalledProcessError then (Inl (UnboundLocalError ''ps''), tr1)
          else (Inl exc, tr1)
      | (Inr ps, tr1) \<Rightarrow>
          (case communicate ps of
             (Inr output, ps1) \<Rightarrow>
               run_cmd_check cmd exit_on_error check_return_code output ps1 tr1
           | (Inl exc, ps1) \<Rightarrow>
               if exc = TimeoutExpired then
                 (case kill ps1 (logging ERROR
                         (Format ''Timeout[%ds]: %s'' [PInt timeout_s, PStr cmd]) tr1) of
                    (ps2, tr2) \<Rightarrow>
                      run_cmd_check cmd exit_on_error check_return_code '''' ps2 tr2)
               else (Inl exc, tr1)))"

section \<open>\<^verbatim>\<open>run_parallel_cmd\<close>\<close>

text \<open>The first loop: every command is started before any is waited on.\<close>

fun launch_all ::
  "shell \<Rightarrow> string list \<Rightarrow> popen list \<Rightarrow> trace \<Rightarrow> (exception + popen list) \<times> trace" where
  "launch_all sh [] children tr = (Inr children, tr)"
| "launch_all sh (cmd # cmds) children tr =
     (case Popen sh (''exec '' @ cmd) tr of
        (Inl exc, tr1) \<Rightarrow> (Inl exc, tr1)
      | (Inr ps, tr1) \<Rightarrow> launch_all sh cmds (children @ [ps]) tr1)"

text \<open>
  The local variable \<^verbatim>\<open>output\<close> is \<open>None\<close> while no assignment has bound it; reading
  it then raises \<^verbatim>\<open>UnboundLocalError\<close>. It keeps its value from one iteration of the
  second loop to the next.
\<close>

definition read_output :: "string option \<Rightarrow> exception + string" where
  "read_output output =
     (case output of None \<Rightarrow> Inl (UnboundLocalError ''output'') | Some out \<Rightarrow> Inr out)"

text \<open>Lines 168 to 170: the end of one iteration.\<close>

definition wait_child_end :: "string option \<Rightarrow> trace \<Rightarrow> (exception + string option) \<times> trace" where
  "wait_child_end output tr =
     (let tr1 = system ''stty sane'' tr
      in case read_output output of
           Inl exc \<Rightarrow> (Inl exc, tr1)
         | Inr out \<Rightarrow> (Inr output, logging DEBUG (Text out) tr1))"

text \<open>Lines 162 to 170.\<close>

definition wait_child_check ::
  "string \<Rightarrow> bool \<Rightarrow> bool \<Rightarrow> string option \<Rightarrow> popen \<Rightarrow> trace \<Rightarrow>
     (exception + string option) \<times> trace" where
  "wait_child_check cmd exit_on_error check_return_code output ps tr =
     (if rc_is_error (returncode ps) check_return_code then
        (case read_output output of
           Inl exc \<Rightarrow> (Inl exc, tr)
         | Inr out \<Rightarrow>
             (let tr1 = logging INFO (Text out) tr;
                  tr2 = logging ERROR (Format ''ERROR return code: %d, cmd:%s''
                          [(case returncode ps of None \<Rightarrow> PNone | Some rc \<Rightarrow> PInt rc), PStr cmd]) tr1
              in if exit_on_error then (Inl (SystemExit RET_FAIL), tr2)
                 else wait_child_end output tr2))
      else wait_child_end output tr)"

text \<open>
  One iteration of the second loop (lines 155 to 170). In the messages \<^verbatim>\<open>cmd\<close> is the
  variable of the first loop, which by now holds the last command of the list.
\<close>

definition wait_child ::
  "string list \<Rightarrow> popen list \<Rightarrow> int \<Rightarrow> bool \<Rightarrow> bool \<Rightarrow> nat \<Rightarrow> string option \<Rightarrow> trace \<Rightarrow>
     (exception + string option) \<times> trace" where
  "wait_child cmd_list children timeout_s exit_on_error check_return_code i output tr =
     (let cmd = last cmd_list;
          tr1 = logging INFO (Format ''Command progress: %d/%d''
                  [PInt (int i), PInt (int (length children))]) tr;
          tr2 = logging DEBUG (Format ''Waiting for command: %s'' [PStr (cmd_list ! i)]) tr1
      in case communicate (children ! i) of
           (Inr out, ps1) \<Rightarrow>
             wait_child_check cmd exit_on_error check_return_code (Some out) ps1 tr2
         | (Inl exc, ps1) \<Rightarrow>
             if exc = TimeoutExpired then
               (case kill ps1 (logging ERROR
                       (Format ''Timeout[%ds]: %s'' [PInt timeout_s, PStr cmd]) tr2) of
                  (ps2, tr3) \<Rightarrow>
                    wait_child_check cmd exit_on_error check_return_code output ps2 tr3)
             else (Inl exc, tr2))"

text \<open>The second loop, over \<^verbatim>\<open>range(len(children))\<close>.\<close>

fun wait_all ::
  "string list \<Rightarrow> popen list \<Rightarrow> int \<Rightarrow> bool \<Rightarrow> bool \<Rightarrow> nat list \<Rightarrow> string option \<Rightarrow> trace \<Rightarrow>
     (exception + unit) \<times> trace" where
  "wait_all cmd_list children timeout_s exit_on_error check_return_code [] output tr =
     (Inr (), tr)"
| "wait_all cmd_list children timeout_s exit_on_error check_return_code (i # is) output tr =
     (case wait_child cmd_list children timeout_s exit_on_error check_return_code i output tr of
        (Inl exc, tr1) \<Rightarrow> (Inl exc, tr1)
      | (Inr output1, tr1) \<Rightarrow>
          wait_all cmd_list children timeout_s exit_on_error check_return_code is output1 tr1)"

definition run_parallel_cmd ::
  "shell \<Rightarrow> string list \<Rightarrow> int \<Rightarrow> bool \<Rightarrow> bool \<Rightarrow> trace \<Rightarrow> (exception + unit) \<times> trace" where
  "run_parallel_cmd sh cmd_list timeout_s exit_on_error check_return_code tr =
     (case launch_all sh cmd_list [] tr of
        (Inl exc, tr1) \<Rightarrow> (Inl exc, tr1)
      | (Inr children, tr1) \<Rightarrow>
          wait_all cmd_list children timeout_s exit_on_error check_return_code
            [0 ..< length children] None tr1)"

section \<open>Test lists\<close>

text \<open>
  A test list is the sequence of mappings that \<^verbatim>\<open>yaml.safe_load\<close> returns for a
  regression list: each node a dictionary with string keys, kept as an association
  list in key order. Floating-point and nested values do not occur under the keys
  the library reads and are left out of \<open>pyval\<close>. \<^verbatim>\<open>read_yaml\<close> parses the file anew at
  every call, so the dictionaries it returns are shared with no earlier result;
  an assignment to \<^verbatim>\<open>entry['iterations']\<close> is modelled on values.

  The file system maps a path to what \<^verbatim>\<open>open\<close> and the parser make of it.
\<close>

type_synonym entry = "(string \<times> pyval) list"

datatype file_content = NoSuchFile | Malformed string | Document "entry list"

type_synonym filesystem = "string \<Rightarrow> file_content"

definition read_yaml :: "filesystem \<Rightarrow> string \<Rightarrow> trace \<Rightarrow> (exception + entry list) \<times> trace" where
  "read_yaml fs yaml_file tr =
     (case fs yaml_file of
        NoSuchFile \<Rightarrow> (Inl (FileNotFoundError yaml_file), tr)
      | Malformed exc \<Rightarrow> (Inl (SystemExit RET_FAIL), logging ERROR (Text exc) tr)
      | Document yaml_data \<Rightarrow> (Inr yaml_data, tr))"

text \<open>\<^verbatim>\<open>entry[key]\<close>, \<^verbatim>\<open>entry[key] = v\<close> and \<^verbatim>\<open>key in entry\<close>.\<close>

definition getitem :: "entry \<Rightarrow> string \<Rightarrow> exception + pyval" where
  "getitem entry key = (case map_of entry key of None \<Rightarrow> Inl (KeyError key) | Some v \<Rightarrow> Inr v)"

definition setitem :: "entry \<Rightarrow> string \<Rightarrow> pyval \<Rightarrow> entry" where
  "setitem entry key v = AList.update key v entry"

definition has_key :: "entry \<Rightarrow> string \<Rightarrow> bool" where
  "has_key entry key = (map_of entry key \<noteq> None)"

text \<open>\<^verbatim>\<open>v > 0\<close>: an integer or a boolean compares with \<open>0\<close>, a string or \<^verbatim>\<open>None\<close> raises.\<close>

fun gt_zero :: "pyval \<Rightarrow> exception + bool" where
  "gt_zero (PInt i) = Inr (i > 0)"
| "gt_zero (PBool b) = Inr b"
| "gt_zero (PStr s) = Inl TypeError"
| "gt_zero PNone = Inl TypeError"

text \<open>\<^verbatim>\<open>v in mult_test\<close>, for a list of strings: only an equal string is a member.\<close>

fun contains :: "string list \<Rightarrow> pyval \<Rightarrow> bool" where
  "contains xs (PStr s) = (s \<in> set xs)"
| "contains xs (PInt i) = False"
| "contains xs (PBool b) = False"
| "contains xs PNone = False"

text \<open>\<^verbatim>\<open>test.split(',')\<close>.\<close>

function split_comma :: "string \<Rightarrow> string list" where
  "split_comma s =
     (case dropWhile (\<lambda>c. c \<noteq> CHR '','') s of
        [] \<Rightarrow> [s]
      | c # rest \<Rightarrow> takeWhile (\<lambda>c. c \<noteq> CHR '','') s # split_comma rest)"
  by pat_completeness auto
termination
proof (relation "measure length")
  fix s :: string and c rest
  assume "dropWhile (\<lambda>c. c \<noteq> CHR '','') s = c # rest"
  then have "length (c # rest) \<le> length s"
    using length_dropWhile_le [of "\<lambda>c. c \<noteq> CHR '',''" s] by simp
  then show "(rest, s) \<in> measure length" by simp
qed simp

text \<open>
  \<^verbatim>\<open>re.sub('<riscv_dv_root>', riscv_dv_root, path)\<close>. The pattern has no
  metacharacter and no group, so every occurrence of the token, found from the left
  and not overlapping, is replaced by the same text. A replacement without a
  backslash is that text. One with a backslash is a template, which \<^verbatim>\<open>re.sub\<close> parses
  before it looks at the path (\<^verbatim>\<open>parse_template\<close> of CPython 3.11, followed here
  branch by branch): \<^verbatim>\<open>\g<0>\<close> stands for the match, every other group reference
  raises \<^verbatim>\<open>re.error\<close> or, for a name that is an identifier, \<^verbatim>\<open>IndexError\<close>; octal
  escapes and \<^verbatim>\<open>\a \b \f \n \r \t \v \\\<close> stand for one character; a backslash before
  another ASCII letter or at the end raises \<^verbatim>\<open>re.error\<close>; before anything else it
  stays, with the character after it. A character is a code point below 256.

  The tokenizer reads one token ahead. A backslash at the end of the template
  therefore raises when the last complete token is taken, before that token is
  used: that token is \<open>None\<close> in the list of tokens.
\<close>

fun tokens :: "string \<Rightarrow> string list \<times> bool" where
  "tokens [] = ([], False)"
| "tokens [c] = (if c = CHR 0x5C then ([], True) else ([[c]], False))"
| "tokens (c # d # cs) =
     (if c = CHR 0x5C then (case tokens cs of (ts, dangling) \<Rightarrow> ([c, d] # ts, dangling))
      else (case tokens (d # cs) of (ts, dangling) \<Rightarrow> ([c] # ts, dangling)))"

definition tokenizer :: "string \<Rightarrow> string option list" where
  "tokenizer source =
     (case tokens source of
        (ts, dangling) \<Rightarrow> if dangling then map Some (butlast ts) @ [None] else map Some ts)"

fun getuntil :: "string option list \<Rightarrow> string \<Rightarrow> (string \<times> string option list) option" where
  "getuntil [] name = None"
| "getuntil (None # ts) name = None"
| "getuntil (Some t # ts) name =
     (if t = ''>'' then (if name = [] then None else Some (name, ts))
      else getuntil ts (name @ t))"

definition code :: "char \<Rightarrow> nat" where
  "code c = of_char c"

definition isdigit :: "char \<Rightarrow> bool" where
  "isdigit c = (0x30 \<le> code c \<and> code c \<le> 0x39)"

definition isoctdigit :: "char \<Rightarrow> bool" where
  "isoctdigit c = (0x30 \<le> code c \<and> code c \<le> 0x37)"

definition digit :: "char \<Rightarrow> nat" where
  "digit c = code c - 0x30"

definition isasciiletter :: "char \<Rightarrow> bool" where
  "isasciiletter c = ((0x41 \<le> code c \<and> code c \<le> 0x5A) \<or> (0x61 \<le> code c \<and> code c \<le> 0x7A))"

definition xid_start :: "char \<Rightarrow> bool" where
  "xid_start c =
     (isasciiletter c \<or> code c = 0x5F \<or> code c = 0xAA \<or> code c = 0xB5 \<or> code c = 0xBA \<or>
      (0xC0 \<le> code c \<and> code c \<le> 0xD6) \<or> (0xD8 \<le> code c \<and> code c \<le> 0xF6) \<or>
      0xF8 \<le> code c)"

definition xid_continue :: "char \<Rightarrow> bool" where
  "xid_continue c = (xid_start c \<or> isdigit c \<or> code c = 0xB7)"

definition isidentifier :: "string \<Rightarrow> bool" where
  "isidentifier s = (case s of [] \<Rightarrow> False | c # cs \<Rightarrow> xid_start c \<and> list_all xid_continue cs)"

definition isspace :: "char \<Rightarrow> bool" where
  "isspace c =
     ((0x09 \<le> code c \<and> code c \<le> 0x0D) \<or> code c = 0x20 \<or> code c = 0x85 \<or> code c = 0xA0)"

fun int_digits :: "string \<Rightarrow> nat \<Rightarrow> int \<Rightarrow> int option" where
  "int_digits [] n v = (if n \<le> 4300 then Some v else None)"
| "int_digits (c # cs) n v =
     (if isdigit c then int_digits cs (Suc n) (10 * v + int (digit c))
      else if c = CHR ''_'' then
        (case cs of
           [] \<Rightarrow> None
         | d # ds \<Rightarrow> if isdigit d then int_digits ds (Suc n) (10 * v + int (digit d)) else None)
      else None)"

definition py_int :: "string \<Rightarrow> int option" where
  "py_int s =
     (let s1 = dropWhile isspace s;
          negative = (case s1 of [] \<Rightarrow> False | c # cs \<Rightarrow> c = CHR ''-'');
          s2 = (case s1 of [] \<Rightarrow> [] | c # cs \<Rightarrow> if c = CHR ''+'' \<or> c = CHR ''-'' then cs else s1);
          s3 = rev (dropWhile isspace (rev s2))
      in case s3 of
           [] \<Rightarrow> None
         | c # cs \<Rightarrow>
             if isdigit c then
               (case int_digits cs 1 (int (digit c)) of
                  None \<Rightarrow> None
                | Some v \<Rightarrow> Some (if negative then - v else v))
             else None)"

definition MAXGROUPS :: int where
  "MAXGROUPS = 1073741823"

definition escape :: "char \<Rightarrow> char option" where
  "escape c =
     (if c = CHR ''a'' then Some (CHR 0x07)
      else if c = CHR ''b'' then Some (CHR 0x08)
      else if c = CHR ''f'' then Some (CHR 0x0C)
      else if c = CHR ''n'' then Some (CHR 0x0A)
      else if c = CHR ''r'' then Some (CHR 0x0D)
      else if c = CHR ''t'' then Some (CHR 0x09)
      else if c = CHR ''v'' then Some (CHR 0x0B)
      else if c = CHR 0x5C then Some (CHR 0x5C)
      else None)"

definition next_is :: "(char \<Rightarrow> bool) \<Rightarrow> string option list \<Rightarrow> char option" where
  "next_is P ts =
     (case ts of
        Some [d] # ts1 \<Rightarrow> if P d then Some d else None
      | _ \<Rightarrow> None)"

function parse_template :: "string \<Rightarrow> string option list \<Rightarrow> exception + string" where
  "parse_template m [] = Inr []"
| "parse_template m (None # ts) = Inl re_error"
| "parse_template m (Some this # ts) =
     (case this of
        [c] \<Rightarrow> (case parse_template m ts of Inl exc \<Rightarrow> Inl exc | Inr lit \<Rightarrow> Inr (c # lit))
      | [b, c] \<Rightarrow>
          if c = CHR ''g'' then
            (case ts of
               Some ''<'' # ts1 \<Rightarrow>
                 (case getuntil ts1 [] of
                    None \<Rightarrow> Inl re_error
                  | Some (name, ts2) \<Rightarrow>
                      if isidentifier name then Inl IndexError
                      else
                        (case py_int name of
                           None \<Rightarrow> Inl re_error
                         | Some index \<Rightarrow>
                             if index < 0 then Inl re_error
                             else if index \<ge> MAXGROUPS then Inl re_error
                             else if index > 0 then Inl re_error
                             else (case parse_template m ts2 of
                                     Inl exc \<Rightarrow> Inl exc
                                   | Inr lit \<Rightarrow> Inr (m @ lit))))
             | _ \<Rightarrow> Inl re_error)
          else if c = CHR ''0'' then
            (case ts of
               None # ts1 \<Rightarrow> Inl re_error
             | _ \<Rightarrow>
               (case next_is isoctdigit ts of
                  None \<Rightarrow>
                    (case parse_template m ts of
                       Inl exc \<Rightarrow> Inl exc
                     | Inr lit \<Rightarrow> Inr (CHR 0x00 # lit))
                | Some d \<Rightarrow>
                    (case tl ts of
                       None # ts2 \<Rightarrow> Inl re_error
                     | _ \<Rightarrow>
                       (case next_is isoctdigit (tl ts) of
                          None \<Rightarrow>
                            (case parse_template m (tl ts) of
                               Inl exc \<Rightarrow> Inl exc
                             | Inr lit \<Rightarrow> Inr (char_of (digit d) # lit))
                        | Some e \<Rightarrow>
                            (case parse_template m (tl (tl ts)) of
                               Inl exc \<Rightarrow> Inl exc
                             | Inr lit \<Rightarrow> Inr (char_of (8 * digit d + digit e) # lit))))))
          else if isdigit c then
            (case next_is isdigit ts of
               None \<Rightarrow> Inl re_error
             | Some d \<Rightarrow>
                 (case next_is isoctdigit (tl ts) of
                    None \<Rightarrow> Inl re_error
                  | Some e \<Rightarrow>
                      if isoctdigit c \<and> isoctdigit d then
                        (if 64 * digit c + 8 * digit d + digit e > 255 then Inl re_error
                         else (case parse_template m (tl (tl ts)) of
                                 Inl exc \<Rightarrow> Inl exc
                               | Inr lit \<Rightarrow>
                                   Inr (char_of (64 * digit c + 8 * digit d + digit e) # lit)))
                      else Inl re_error))
          else
            (case escape c of
               Some x \<Rightarrow>
                 (case parse_template m ts of Inl exc \<Rightarrow> Inl exc | Inr lit \<Rightarrow> Inr (x # lit))
             | None \<Rightarrow>
                 if isasciiletter c then Inl re_error
                 else (case parse_template m ts of
                         Inl exc \<Rightarrow> Inl exc
                       | Inr lit \<Rightarrow> Inr (b # c # lit)))
      | _ \<Rightarrow> Inl re_error)"
  by pat_completeness auto
termination
proof -
  have shorter: "length ts' < length ts" if "getuntil ts name = Some (n, ts')"
    for ts name n ts'
    using that by (induction ts name rule: getuntil.induct) (auto split: if_splits)
  show ?thesis
    by (relation "measure (\<lambda>(m, ts). length ts)")
       (auto dest: shorter simp: next_is_def split: list.splits option.splits if_splits)
qed

definition compile_repl :: "string \<Rightarrow> exception + string" where
  "compile_repl repl =
     (if CHR 0x5C \<in> set repl then parse_template ''<riscv_dv_root>'' (tokenizer repl)
      else Inr repl)"

text \<open>
  The text that replaces each match, or the exception of the template; then the
  substitution itself. A path that is not a string raises \<^verbatim>\<open>TypeError\<close>, after the
  template has been parsed.
\<close>

function sub_root :: "string \<Rightarrow> string \<Rightarrow> string" where
  "sub_root repl [] = []"
| "sub_root repl (c # cs) =
     (if take 15 (c # cs) = ''<riscv_dv_root>'' then repl @ sub_root repl (drop 14 cs)
      else c # sub_root repl cs)"
  by pat_completeness auto
termination
  by (relation "measure (\<lambda>(repl, s). length s)") auto

definition re_sub_root :: "string \<Rightarrow> pyval \<Rightarrow> exception + string" where
  "re_sub_root riscv_dv_root v =
     (case compile_repl riscv_dv_root of
        Inl exc \<Rightarrow> Inl exc
      | Inr text \<Rightarrow>
          (case v of PStr path \<Rightarrow> Inr (sub_root text path) | _ \<Rightarrow> Inl TypeError))"

section \<open>\<^verbatim>\<open>process_regression_list\<close>\<close>

text \<open>
  The state of the resolver: the trace, and the list \<^verbatim>\<open>matched_list\<close> of the caller,
  which every recursive call receives by reference and appends to.
\<close>

record rstate =
  effects :: trace
  matched_list :: "entry list"

text \<open>The expression \<^verbatim>\<open>entry['iterations'] > 0\<close>.\<close>

definition iterations_positive :: "entry \<Rightarrow> exception + bool" where
  "iterations_positive entry =
     (case getitem entry ''iterations'' of Inl exc \<Rightarrow> Inl exc | Inr v \<Rightarrow> gt_zero v)"

text \<open>Lines 194 and 195; \<^verbatim>\<open>and\<close> does not evaluate its right side when the left is false.\<close>

definition override :: "entry \<Rightarrow> int \<Rightarrow> exception + entry" where
  "override entry iterations =
     (if iterations > 0 then
        (case iterations_positive entry of
           Inl exc \<Rightarrow> Inl exc
         | Inr b \<Rightarrow> Inr (if b then setitem entry ''iterations'' (PInt iterations) else entry))
      else Inr entry)"

text \<open>Lines 196 to 199.\<close>

definition append_if_positive :: "entry \<Rightarrow> rstate \<Rightarrow> (exception + unit) \<times> rstate" where
  "append_if_positive entry s =
     (case iterations_positive entry of
        Inl exc \<Rightarrow> (Inl exc, s)
      | Inr b \<Rightarrow>
          if b then
            (case getitem entry ''test'' of
               Inl exc \<Rightarrow> (Inl exc, s)
             | Inr name \<Rightarrow>
                 (case getitem entry ''iterations'' of
                    Inl exc \<Rightarrow> (Inl exc, s)
                  | Inr its \<Rightarrow>
                      (Inr (),
                       s\<lparr>effects := logging INFO
                            (Format ''Found matched tests: %s, iterations:%0d'' [name, its])
                            (effects s),
                         matched_list := matched_list s @ [entry]\<rparr>)))
          else (Inr (), s))"

text \<open>Lines 193 to 199: the branch of a node without the key \<^verbatim>\<open>import\<close>.\<close>

definition process_test_node ::
  "entry \<Rightarrow> string \<Rightarrow> string list \<Rightarrow> int \<Rightarrow> rstate \<Rightarrow> (exception + unit) \<times> rstate" where
  "process_test_node entry test mult_test iterations s =
     (case getitem entry ''test'' of
        Inl exc \<Rightarrow> (Inl exc, s)
      | Inr name \<Rightarrow>
          if contains mult_test name \<or> test = ''all'' then
            (case override entry iterations of
               Inl exc \<Rightarrow> (Inl exc, s)
             | Inr entry1 \<Rightarrow> append_if_positive entry1 s)
          else (Inr (), s))"

text \<open>
  The function and its loop over \<^verbatim>\<open>yaml_data\<close>. The first argument is the number of
  nested calls of \<^verbatim>\<open>process_regression_list\<close> that the interpreter's stack still admits:
  a call with none left raises \<^verbatim>\<open>RecursionError\<close>, which is how a list that imports
  itself ends.
\<close>

fun process_regression_list ::
  "nat \<Rightarrow> filesystem \<Rightarrow> string \<Rightarrow> string \<Rightarrow> int \<Rightarrow> string \<Rightarrow> rstate \<Rightarrow> (exception + unit) \<times> rstate"
and process_entries ::
  "nat \<Rightarrow> filesystem \<Rightarrow> entry list \<Rightarrow> string \<Rightarrow> string list \<Rightarrow> int \<Rightarrow> string \<Rightarrow> rstate \<Rightarrow>
     (exception + unit) \<times> rstate"
where
  "process_regression_list 0 fs testlist test iterations riscv_dv_root s =
     (Inl RecursionError, s)"
| "process_regression_list (Suc depth) fs testlist test iterations riscv_dv_root s =
     (case read_yaml fs testlist
             (logging INFO (Format ''Processing regression test list : %s, test: %s''
                [PStr testlist, PStr test]) (effects s)) of
        (Inl exc, tr) \<Rightarrow> (Inl exc, s\<lparr>effects := tr\<rparr>)
      | (Inr yaml_data, tr) \<Rightarrow>
          process_entries depth fs yaml_data test (split_comma test) iterations riscv_dv_root
            (s\<lparr>effects := tr\<rparr>))"
| "process_entries depth fs [] test mult_test iterations riscv_dv_root s = (Inr (), s)"
| "process_entries depth fs (entry # rest) test mult_test iterations riscv_dv_root s =
     (if has_key entry ''import'' then
        (case getitem entry ''import'' of
           Inl exc \<Rightarrow> (Inl exc, s)
         | Inr v \<Rightarrow>
             (case re_sub_root riscv_dv_root v of
                Inl exc \<Rightarrow> (Inl exc, s)
              | Inr sub_list \<Rightarrow>
                  (case process_regression_list depth fs sub_list test iterations riscv_dv_root s of
                     (Inl exc, s1) \<Rightarrow> (Inl exc, s1)
                   | (Inr u, s1) \<Rightarrow>
                       process_entries depth fs rest test mult_test iterations riscv_dv_root s1)))
      else
        (case process_test_node entry test mult_test iterations s of
           (Inl exc, s1) \<Rightarrow> (Inl exc, s1)
         | (Inr u, s1) \<Rightarrow>
             process_entries depth fs rest test mult_test iterations riscv_dv_root s1))"

section \<open>Observations on traces\<close>

text \<open>The command lines handed to \<^verbatim>\<open>/bin/bash\<close>, in the order of the calls.\<close>

fun popen_args :: "trace \<Rightarrow> string list" where
  "popen_args [] = []"
| "popen_args (Popen_bash a # tr) = a # popen_args tr"
| "popen_args (e # tr) = popen_args tr"

section \<open>The resolver in the words of the specification\<close>

text \<open>
  The specification speaks of test entries with a name and an integer iteration
  count, of the entry after the override step, and of the selection. These
  definitions follow its words; the theorems below compare them with the code.
\<close>

definition declared_iterations :: "entry \<Rightarrow> int option" where
  "declared_iterations e =
     (case map_of e ''iterations'' of Some (PInt k) \<Rightarrow> Some k | _ \<Rightarrow> None)"

definition test_entry :: "entry \<Rightarrow> bool" where
  "test_entry e =
     (\<not> has_key e ''import'' \<and> has_key e ''test'' \<and> declared_iterations e \<noteq> None)"

definition spec_override :: "int \<Rightarrow> entry \<Rightarrow> entry" where
  "spec_override N e =
     (case declared_iterations e of
        Some k \<Rightarrow> if N > 0 \<and> k > 0 then setitem e ''iterations'' (PInt N) else e
      | None \<Rightarrow> e)"

definition spec_positive :: "entry \<Rightarrow> bool" where
  "spec_positive e = (case declared_iterations e of Some k \<Rightarrow> k > 0 | None \<Rightarrow> False)"

definition spec_selected :: "string \<Rightarrow> entry \<Rightarrow> bool" where
  "spec_selected test e =
     (test = ''all'' \<or>
      (case map_of e ''test'' of
         Some (PStr n) \<Rightarrow> n \<in> set (split_comma test)
       | _ \<Rightarrow> False))"

section \<open>Example inputs\<close>

definition demo_shell :: shell where
  "demo_shell c =
     (if c = ''exec sleep 100'' then Some (TimesOut None)
      else if c = ''exec sleep 3 & exit 3'' then Some (TimesOut (Some 3))
      else if c = ''exec echo ok'' then Some (Exits ''ok'' 0)
      else if c = ''exec false'' then Some (Exits '''' 1)
      else if c = ''exec kill -9 $$'' then Some (Exits '''' (- 9))
      else None)"

definition no_bash :: shell where
  "no_bash c = None"

definition testA :: entry where
  "testA = [(''test'', PStr ''a''), (''iterations'', PInt 2)]"

definition testB :: entry where
  "testB = [(''test'', PStr ''b''), (''iterations'', PInt 1)]"

definition testC :: entry where
  "testC = [(''test'', PStr ''c''), (''iterations'', PInt 3)]"

definition testD :: entry where
  "testD = [(''test'', PStr ''d''), (''iterations'', PInt 0)]"

definition demo_fs :: filesystem where
  "demo_fs p =
     (if p = ''root'' then Document [testA, [(''import'', PStr ''<riscv_dv_root>/sub'')], testB]
      else if p = ''/dv/sub'' then Document [testC]
      else if p = ''flat'' then Document [testA, testD, testB]
      else NoSuchFile)"

definition s0 :: rstate where
  "s0 = \<lparr>effects = [], matched_list = []\<rparr>"

section \<open>The command executor\<close>

text \<open>
  C6. A command that exits with a strictly positive return code while
  \<^verbatim>\<open>check_return_code\<close> is true: its output and an error are logged; with
  \<^verbatim>\<open>exit_on_error\<close> true \<^verbatim>\<open>run_cmd\<close> ends in \<^verbatim>\<open>sys.exit(RET_FAIL)\<close>, with \<^verbatim>\<open>exit_on_error\<close>
  false it returns the captured output.
\<close>

theorem run_cmd_positive_return_code:
  "sh (''exec '' @ cmd) = Some (Exits out rc) \<Longrightarrow> 0 < rc \<Longrightarrow>
   run_cmd sh cmd timeout_s True True tr =
     (Inl (SystemExit RET_FAIL),
      tr @ [Log DEBUG (Text cmd), Popen_bash (''exec '' @ cmd), Log INFO (Text out),
            Log ERROR (Format ''ERROR return code: %d/%d, cmd:%s''
              [PBool True, PInt rc, PStr cmd])]) \<and>
   run_cmd sh cmd timeout_s False True tr =
     (Inr out,
      tr @ [Log DEBUG (Text cmd), Popen_bash (''exec '' @ cmd), Log INFO (Text out),
            Log ERROR (Format ''ERROR return code: %d/%d, cmd:%s''
              [PBool True, PInt rc, PStr cmd]),
            Log DEBUG (Text out)])"
  by (simp add: run_cmd_def Popen_def communicate_def run_cmd_check_def rc_is_error_def
        logging_def Let_def)

theorem run_cmd_positive_return_code_witness:
  "demo_shell (''exec '' @ ''false'') = Some (Exits '''' 1) \<and> (0::int) < 1 \<and>
   fst (run_cmd demo_shell ''false'' 999 True True []) = Inl (SystemExit RET_FAIL) \<and>
   fst (run_cmd demo_shell ''false'' 999 False True []) = Inr ''''"
proof -
  have h1: "demo_shell (''exec '' @ ''false'') = Some (Exits '''' 1)"
    by (simp add: demo_shell_def)
  have h2: "(0::int) < 1" by simp
  show ?thesis
    using h1 run_cmd_positive_return_code [where sh = demo_shell and cmd = "''false''"
      and out = "''''" and rc = 1 and timeout_s = 999 and tr = "[]", OF h1 h2]
    by simp
qed




text \<open>
  C8. A command whose return code is zero or negative never takes the error branch
  of \<^verbatim>\<open>run_cmd\<close>: for every value of \<^verbatim>\<open>exit_on_error\<close> and \<^verbatim>\<open>check_return_code\<close> the call
  returns the captured output, and the only records logged are the two at level
  \<^verbatim>\<open>DEBUG\<close>.
\<close>

theorem run_cmd_nonpositive_return_code:
  "sh (''exec '' @ cmd) = Some (Exits out rc) \<Longrightarrow> rc \<le> 0 \<Longrightarrow>
   run_cmd sh cmd timeout_s exit_on_error check_return_code tr =
     (Inr out, tr @ [Log DEBUG (Text cmd), Popen_bash (''exec '' @ cmd), Log DEBUG (Text out)])"
  by (simp add: run_cmd_def Popen_def communicate_def run_cmd_check_def rc_is_error_def
        logging_def kill_def Let_def)

theorem run_cmd_nonpositive_return_code_witness:
  "demo_shell (''exec '' @ ''kill -9 $$'') = Some (Exits '''' (- 9)) \<and> (- 9::int) \<le> 0 \<and>
   run_cmd demo_shell ''kill -9 $$'' 999 True True [] =
     (Inr '''',
      [Log DEBUG (Text ''kill -9 $$''), Popen_bash ''exec kill -9 $$'', Log DEBUG (Text '''')])"
proof -
  have h1: "demo_shell (''exec '' @ ''kill -9 $$'') = Some (Exits '''' (- 9))"
    by (simp add: demo_shell_def)
  have h2: "(- 9::int) \<le> 0" by simp
  show ?thesis
    using h1 run_cmd_nonpositive_return_code [where sh = demo_shell and cmd = "''kill -9 $$''"
      and out = "''''" and rc = "- 9" and timeout_s = 999 and exit_on_error = True
      and check_return_code = True and tr = "[]", OF h1 h2]
    by simp
qed

text \<open>
  C2. When the shell cannot be started, \<^verbatim>\<open>Popen\<close> raises \<^verbatim>\<open>OSError\<close>. The handler
  that would log and call \<^verbatim>\<open>sys.exit(RET_FAIL)\<close> is written for
  \<^verbatim>\<open>CalledProcessError\<close>, so the \<^verbatim>\<open>OSError\<close> leaves \<^verbatim>\<open>run_cmd\<close> as it is: the call
  ends with that exception and not with \<^verbatim>\<open>SystemExit RET_FAIL\<close>.
\<close>

theorem run_cmd_launch_failure:
  "run_cmd no_bash ''ls'' 999 True True [] =
     (Inl OSError, [Log DEBUG (Text ''ls''), Popen_bash ''exec ls''])"
  by (simp add: run_cmd_def Popen_def no_bash_def logging_def)

section \<open>The parallel executor\<close>

lemma popen_args_append: "popen_args (tr @ tr') = popen_args tr @ popen_args tr'"
  by (induction tr rule: popen_args.induct) simp_all

lemma run_cmd_popen_args:
  "popen_args (snd (run_cmd sh cmd timeout_s exit_on_error check_return_code tr)) =
     popen_args tr @ [''exec '' @ cmd]"
  by (simp add: run_cmd_def Popen_def communicate_def run_cmd_check_def rc_is_error_def
        logging_def kill_def Let_def popen_args_append
      split: option.splits behaviour.splits prod.splits)

lemma wait_child_popen_args:
  "popen_args (snd (wait_child cmd_list children timeout_s exit_on_error check_return_code i output tr))
     = popen_args tr"
  by (simp add: wait_child_def wait_child_check_def wait_child_end_def read_output_def
        communicate_def logging_def kill_def system_def Let_def popen_args_append
      split: option.splits behaviour.splits prod.splits)

lemma wait_all_popen_args:
  "popen_args (snd (wait_all cmd_list children timeout_s exit_on_error check_return_code is output tr))
     = popen_args tr"
proof (induction "is" arbitrary: "output" tr)
  case Nil
  then show ?case by simp
next
  case (Cons i "is")
  show ?case
  proof (cases "wait_child cmd_list children timeout_s exit_on_error check_return_code i output tr")
    case (Pair r tr1)
    have tr1: "popen_args tr1 = popen_args tr"
      using wait_child_popen_args [of cmd_list children timeout_s exit_on_error check_return_code i "output" tr] Pair
      by simp
    show ?thesis
      using Pair tr1 Cons.IH by (cases r) simp_all
  qed
qed

lemma launch_all_popen_args_ok:
  "\<forall>cmd\<in>set cmd_list. sh (''exec '' @ cmd) \<noteq> None \<Longrightarrow>
   \<exists>children'. launch_all sh cmd_list children tr = (Inr children', tr @ map Popen_bash (map ((@) ''exec '') cmd_list))
      \<and> length children' = length children + length cmd_list"
proof (induction cmd_list arbitrary: children tr)
  case Nil
  then show ?case by simp
next
  case (Cons cmd cmds)
  then obtain b where b: "sh (''exec '' @ cmd) = Some b" by auto
  from Cons.prems have "\<forall>cmd\<in>set cmds. sh (''exec '' @ cmd) \<noteq> None" by simp
  from Cons.IH [OF this, of "children @ [\<lparr>args = ''exec '' @ cmd, behaviour = b, returncode = None\<rparr>]" "tr @ [Popen_bash (''exec '' @ cmd)]"]
  show ?case using b by (auto simp: Popen_def)
qed

lemma launch_all_popen_args:
  "\<exists>n\<le>length cmd_list. popen_args (snd (launch_all sh cmd_list children tr)) =
      popen_args tr @ map ((@) ''exec '') (take n cmd_list)"
proof (induction cmd_list arbitrary: children tr)
  case Nil
  then show ?case by simp
next
  case (Cons cmd cmds)
  show ?case
  proof (cases "sh (''exec '' @ cmd)")
    case None
    then have "popen_args (snd (launch_all sh (cmd # cmds) children tr)) =
       popen_args tr @ map ((@) ''exec '') (take 1 (cmd # cmds))"
      by (simp add: Popen_def popen_args_append)
    then show ?thesis by (intro exI [of _ 1]) simp
  next
    case (Some b)
    obtain n where n: "n \<le> length cmds"
      "popen_args (snd (launch_all sh cmds (children @ [\<lparr>args = ''exec '' @ cmd, behaviour = b, returncode = None\<rparr>]) (tr @ [Popen_bash (''exec '' @ cmd)])))
        = popen_args (tr @ [Popen_bash (''exec '' @ cmd)]) @ map ((@) ''exec '') (take n cmds)"
      using Cons.IH by blast
    then have "popen_args (snd (launch_all sh (cmd # cmds) children tr)) =
       popen_args tr @ map ((@) ''exec '') (take (Suc n) (cmd # cmds))"
      using Some by (simp add: Popen_def popen_args_append)
    then show ?thesis using n(1) by (intro exI [of _ "Suc n"]) simp
  qed
qed

lemma popen_args_map: "popen_args (map (Popen_bash \<circ> f) xs) = map f xs"
  by (induction xs) simp_all

text \<open>
  C9. Both executors hand \<^verbatim>\<open>"exec " + cmd\<close> to the shell, never \<^verbatim>\<open>cmd\<close> itself:
  \<^verbatim>\<open>run_cmd\<close> makes exactly one call of \<^verbatim>\<open>Popen\<close>, with that string; the calls of
  \<^verbatim>\<open>run_parallel_cmd\<close> are the prefixed commands of an initial part of the list, in
  order, and of the whole list when no launch fails.
\<close>

theorem executors_prepend_exec:
  "popen_args (snd (run_cmd sh cmd timeout_s exit_on_error check_return_code tr)) =
     popen_args tr @ [''exec '' @ cmd] \<and>
   (\<exists>n\<le>length cmd_list.
      popen_args (snd (run_parallel_cmd sh cmd_list timeout_s exit_on_error check_return_code tr)) =
        popen_args tr @ map ((@) ''exec '') (take n cmd_list)) \<and>
   ((\<forall>c\<in>set cmd_list. sh (''exec '' @ c) \<noteq> None) \<longrightarrow>
      popen_args (snd (run_parallel_cmd sh cmd_list timeout_s exit_on_error check_return_code tr)) =
        popen_args tr @ map ((@) ''exec '') cmd_list)"
proof (intro conjI impI)
  show "popen_args (snd (run_cmd sh cmd timeout_s exit_on_error check_return_code tr)) =
     popen_args tr @ [''exec '' @ cmd]"
    by (rule run_cmd_popen_args)
next
  have eq: "popen_args (snd (run_parallel_cmd sh cmd_list timeout_s exit_on_error check_return_code tr))
     = popen_args (snd (launch_all sh cmd_list [] tr))"
    by (cases "launch_all sh cmd_list [] tr")
       (auto simp: run_parallel_cmd_def wait_all_popen_args split: sum.splits)
  show "\<exists>n\<le>length cmd_list.
      popen_args (snd (run_parallel_cmd sh cmd_list timeout_s exit_on_error check_return_code tr)) =
        popen_args tr @ map ((@) ''exec '') (take n cmd_list)"
    unfolding eq by (rule launch_all_popen_args)
  assume "\<forall>c\<in>set cmd_list. sh (''exec '' @ c) \<noteq> None"
  from launch_all_popen_args_ok [OF this, of "[]" tr]
  show "popen_args (snd (run_parallel_cmd sh cmd_list timeout_s exit_on_error check_return_code tr)) =
        popen_args tr @ map ((@) ''exec '') cmd_list"
    unfolding eq by (auto simp: popen_args_append popen_args_map)
qed

theorem executors_prepend_exec_witness:
  "demo_shell (''exec '' @ ''echo ok'') \<noteq> None \<and>
   demo_shell (''exec '' @ ''sleep 100'') \<noteq> None \<and>
   popen_args (snd (run_parallel_cmd demo_shell [''echo ok'', ''sleep 100''] 1 False True [])) =
     [''exec echo ok'', ''exec sleep 100''] \<and>
   popen_args (snd (run_cmd demo_shell ''echo ok'' 1 False True [])) = [''exec echo ok'']"
proof -
  have h1: "\<forall>c\<in>set [''echo ok'', ''sleep 100'']. demo_shell (''exec '' @ c) \<noteq> None"
    by (simp add: demo_shell_def)
  show ?thesis
    using h1 executors_prepend_exec [where sh = demo_shell and cmd = "''echo ok''"
      and timeout_s = 1 and exit_on_error = False and check_return_code = True and tr = "[]"
      and cmd_list = "[''echo ok'', ''sleep 100'']"]
    by simp
qed

text \<open>
  What \<^verbatim>\<open>run_parallel_cmd\<close> does whenever every command of the batch starts and the
  first one exceeds its timeout: the first iteration of the second loop ends in
  \<^verbatim>\<open>UnboundLocalError\<close>.
\<close>

lemma launch_all_children:
  "\<forall>cmd\<in>set cmd_list. sh (''exec '' @ cmd) \<noteq> None \<Longrightarrow>
   fst (launch_all sh cmd_list children tr) =
     Inr (children @
       map (\<lambda>c. \<lparr>args = ''exec '' @ c, behaviour = the (sh (''exec '' @ c)), returncode = None\<rparr>)
         cmd_list)"
proof (induction cmd_list arbitrary: children tr)
  case Nil
  then show ?case by simp
next
  case (Cons cmd cmds)
  then obtain b where b: "sh (''exec '' @ cmd) = Some b" by auto
  from Cons.prems have "\<forall>cmd\<in>set cmds. sh (''exec '' @ cmd) \<noteq> None" by simp
  from Cons.IH [OF this] show ?case using b by (simp add: Popen_def)
qed

lemma run_parallel_cmd_first_hangs:
  assumes "sh (''exec '' @ c) = Some (TimesOut exited)"
    and "\<forall>cmd\<in>set cs. sh (''exec '' @ cmd) \<noteq> None"
  shows "fst (run_parallel_cmd sh (c # cs) timeout_s exit_on_error check_return_code tr) =
           Inl (UnboundLocalError ''output'')"
proof -
  have all: "\<forall>cmd\<in>set (c # cs). sh (''exec '' @ cmd) \<noteq> None"
    using assms by simp
  obtain r tr1 where l: "launch_all sh (c # cs) [] tr = (r, tr1)"
    by (cases "launch_all sh (c # cs) [] tr")
  define first where
    "first = \<lparr>args = ''exec '' @ c, behaviour = TimesOut exited, returncode = None\<rparr>"
  define others where "others =
      map (\<lambda>c. \<lparr>args = ''exec '' @ c, behaviour = the (sh (''exec '' @ c)), returncode = None\<rparr>) cs"
  have r: "r = Inr (first # others)"
    using launch_all_children [OF all, of "[]" tr] l assms(1)
    by (simp add: first_def others_def)
  have "0 < length (first # others)" by simp
  then have idx: "[0 ..< length (first # others)] = 0 # [Suc 0 ..< length (first # others)]"
    by (rule upt_conv_Cons)
  obtain w tr2 where w:
    "wait_child (c # cs) (first # others) timeout_s exit_on_error check_return_code 0 None tr1 =
       (w, tr2)"
    by (cases "wait_child (c # cs) (first # others) timeout_s exit_on_error check_return_code
          0 None tr1")
  have "fst (wait_child (c # cs) (first # others) timeout_s exit_on_error check_return_code
          0 None tr1) = Inl (UnboundLocalError ''output'')"
    by (cases exited)
       (simp_all add: wait_child_def wait_child_check_def wait_child_end_def read_output_def
          communicate_def kill_def first_def Let_def)
  then have "w = Inl (UnboundLocalError ''output'')"
    using w by simp
  then show ?thesis
    unfolding run_parallel_cmd_def l r using w
    by (simp only: idx wait_all.simps prod.case sum.case fst_conv)
qed

text \<open>
  C1. A batch of two commands, the first still running at its timeout, the second
  printing \<^verbatim>\<open>ok\<close> and exiting with code 0. The handler of \<^verbatim>\<open>TimeoutExpired\<close> in
  \<^verbatim>\<open>run_parallel_cmd\<close> does not bind \<^verbatim>\<open>output\<close> (the one in \<^verbatim>\<open>run_cmd\<close> does), so the
  \<^verbatim>\<open>logging.debug(output)\<close> that ends the first iteration raises
  \<^verbatim>\<open>UnboundLocalError\<close>: the second command is never waited on and its output is
  never logged.
\<close>

theorem run_parallel_cmd_first_timeout:
  "run_parallel_cmd demo_shell [''sleep 100'', ''echo ok''] 1 False True [] =
     (Inl (UnboundLocalError ''output''),
      [Popen_bash ''exec sleep 100'', Popen_bash ''exec echo ok'',
       Log INFO (Format ''Command progress: %d/%d'' [PInt 0, PInt 2]),
       Log DEBUG (Format ''Waiting for command: %s'' [PStr ''sleep 100'']),
       Log ERROR (Format ''Timeout[%ds]: %s'' [PInt 1, PStr ''echo ok'']),
       Kill ''exec sleep 100'', System ''stty sane''])"
  by (simp add: run_parallel_cmd_def Popen_def demo_shell_def wait_child_def wait_child_check_def
        wait_child_end_def read_output_def communicate_def rc_is_error_def logging_def kill_def
        system_def Let_def)

section \<open>The test list resolver\<close>

lemma declared_iterations_Some:
  "declared_iterations e = Some k \<longleftrightarrow> map_of e ''iterations'' = Some (PInt k)"
  by (auto simp: declared_iterations_def split: option.splits pyval.splits)

lemma iterations_positive_declared:
  "declared_iterations e = Some k \<Longrightarrow> iterations_positive e = Inr (0 < k)"
  by (simp add: declared_iterations_Some iterations_positive_def getitem_def)

lemma map_of_setitem: "map_of (setitem e key v) = (map_of e)(key \<mapsto> v)"
  by (simp add: setitem_def update_conv')

lemma override_declared:
  "declared_iterations e = Some k \<Longrightarrow> override e N = Inr (spec_override N e)"
  by (simp add: override_def spec_override_def iterations_positive_declared)

lemma declared_effective:
  assumes k: "declared_iterations e = Some k"
  shows "declared_iterations (spec_override N e) = Some (if 0 < N \<and> 0 < k then N else k)"
proof -
  have "spec_override N e = (if 0 < N \<and> 0 < k then setitem e ''iterations'' (PInt N) else e)"
    by (simp add: spec_override_def k)
  then show ?thesis
    using k by (simp add: declared_iterations_Some map_of_setitem)
qed

lemma test_effective:
  "map_of (spec_override N e) ''test'' = map_of e ''test''"
  by (simp add: spec_override_def map_of_setitem split: option.splits)

lemma positive_effective:
  "declared_iterations e = Some k \<Longrightarrow> spec_positive (spec_override N e) = (0 < k)"
  by (auto simp: spec_positive_def declared_effective)

lemma process_test_node_test_node:
  assumes "test_entry e"
  shows "fst (process_test_node e test (split_comma test) N s) = Inr () \<and>
         matched_list (snd (process_test_node e test (split_comma test) N s)) =
           matched_list s @ filter spec_positive (map (spec_override N) (filter (spec_selected test) [e]))"
proof -
  from assms obtain k t where k: "declared_iterations e = Some k"
    and t: "map_of e ''test'' = Some t"
    by (auto simp: test_entry_def has_key_def)
  have sel: "spec_selected test e = (contains (split_comma test) t \<or> test = ''all'')"
    using t by (cases t) (auto simp: spec_selected_def)
  have it: "map_of (spec_override N e) ''iterations'' = Some (PInt (if 0 < N \<and> 0 < k then N else k))"
    using declared_effective [OF k, of N] by (simp add: declared_iterations_Some)
  have pos: "iterations_positive (spec_override N e) = Inr (0 < k)"
    using iterations_positive_declared [OF declared_effective [OF k, of N]] by auto
  show ?thesis
    using t sel pos it positive_effective [OF k, of N]
    by (simp add: process_test_node_def getitem_def override_declared [OF k]
          append_if_positive_def test_effective)
qed

lemma process_entries_test_nodes:
  assumes "\<forall>e\<in>set doc. test_entry e"
  shows "fst (process_entries depth fs doc test (split_comma test) N root s) = Inr () \<and>
         matched_list (snd (process_entries depth fs doc test (split_comma test) N root s)) =
           matched_list s @ filter spec_positive (map (spec_override N) (filter (spec_selected test) doc))"
  using assms
proof (induction doc arbitrary: s)
  case Nil
  then show ?case by simp
next
  case (Cons e doc)
  then have e: "test_entry e" and doc: "\<forall>e\<in>set doc. test_entry e" by simp_all
  obtain r s1 where step: "process_test_node e test (split_comma test) N s = (r, s1)"
    by (cases "process_test_node e test (split_comma test) N s")
  from process_test_node_test_node [OF e, of test N s] step
  have r: "r = Inr ()"
    and s1: "matched_list s1 = matched_list s @ filter spec_positive (map (spec_override N) (filter (spec_selected test) [e]))"
    by simp_all
  have noimp: "\<not> has_key e ''import''" using e by (simp add: test_entry_def)
  have unfold: "process_entries depth fs (e # doc) test (split_comma test) N root s =
      process_entries depth fs doc test (split_comma test) N root s1"
    using noimp step r by simp
  show ?case
    unfolding unfold using Cons.IH [OF doc, of s1] s1 by auto
qed

lemma process_test_node_appends:
  "\<exists>new. matched_list (snd (process_test_node e test mult_test N s)) = matched_list s @ new \<and>
     (\<forall>x\<in>set new. iterations_positive x = Inr True)"
  by (auto simp: process_test_node_def append_if_positive_def split: sum.splits)

lemma resolver_appends:
  "\<exists>new. matched_list (snd (process_regression_list depth fs testlist test N root s)) =
       matched_list s @ new \<and> (\<forall>x\<in>set new. iterations_positive x = Inr True)"
  "\<exists>new. matched_list (snd (process_entries depth fs doc test mult_test N root s)) =
       matched_list s @ new \<and> (\<forall>x\<in>set new. iterations_positive x = Inr True)"
proof (induction depth fs testlist test N root s and depth fs doc test mult_test N root s
       rule: process_regression_list_process_entries.induct)
  case (1 fs testlist test iterations riscv_dv_root s)
  then show ?case by simp
next
  case (2 depth fs testlist test iterations riscv_dv_root s)
  then show ?case
    by (auto simp: read_yaml_def split: file_content.splits)
next
  case (3 depth fs test mult_test iterations riscv_dv_root s)
  then show ?case by simp
next
  case (4 depth fs entry rest test mult_test iterations riscv_dv_root s)
  show ?case
  proof (cases "has_key entry ''import''")
    case True
    show ?thesis
    proof (cases "getitem entry ''import''")
      case (Inl exc)
      then show ?thesis using True by simp
    next
      case (Inr v)
      show ?thesis
      proof (cases "re_sub_root riscv_dv_root v")
        case (Inl exc)
        then show ?thesis using True Inr by simp
      next
        case sub: (Inr sub_list)
        obtain r s1 where call:
          "process_regression_list depth fs sub_list test iterations riscv_dv_root s = (r, s1)"
          by (cases "process_regression_list depth fs sub_list test iterations riscv_dv_root s")
        from "4.IH"(1) [OF True Inr sub] call
        obtain new1 where new1: "matched_list s1 = matched_list s @ new1"
          "\<forall>x\<in>set new1. iterations_positive x = Inr True"
          by auto
        show ?thesis
        proof (cases r)
          case (Inl exc)
          then show ?thesis using True Inr sub call new1 by simp
        next
          case r: (Inr u)
          from "4.IH"(2) [OF True Inr sub call [symmetric] r]
          obtain new2 where new2:
            "matched_list (snd (process_entries depth fs rest test mult_test iterations riscv_dv_root s1)) =
               matched_list s1 @ new2"
            "\<forall>x\<in>set new2. iterations_positive x = Inr True"
            by auto
          have "matched_list (snd (process_entries depth fs (entry # rest) test mult_test iterations riscv_dv_root s)) =
             matched_list s @ (new1 @ new2)"
            using True Inr sub call r new1 new2 by simp
          moreover have "\<forall>x\<in>set (new1 @ new2). iterations_positive x = Inr True"
            using new1 new2 by auto
          ultimately show ?thesis by blast
        qed
      qed
    qed
  next
    case False
    obtain r s1 where step: "process_test_node entry test mult_test iterations s = (r, s1)"
      by (cases "process_test_node entry test mult_test iterations s")
    from process_test_node_appends [of entry test mult_test iterations s] step
    obtain new1 where new1: "matched_list s1 = matched_list s @ new1"
      "\<forall>x\<in>set new1. iterations_positive x = Inr True"
      by auto
    show ?thesis
    proof (cases r)
      case (Inl exc)
      then show ?thesis using False step new1 by simp
    next
      case r: (Inr u)
      from "4.IH"(3) [OF False step [symmetric] r]
      obtain new2 where new2:
        "matched_list (snd (process_entries depth fs rest test mult_test iterations riscv_dv_root s1)) =
           matched_list s1 @ new2"
        "\<forall>x\<in>set new2. iterations_positive x = Inr True"
        by auto
      have "matched_list (snd (process_entries depth fs (entry # rest) test mult_test iterations riscv_dv_root s)) =
         matched_list s @ (new1 @ new2)"
        using False step r new1 new2 by simp
      moreover have "\<forall>x\<in>set (new1 @ new2). iterations_positive x = Inr True"
        using new1 new2 by auto
      ultimately show ?thesis by blast
    qed
  qed
qed

lemma process_regression_list_test_nodes:
  assumes "fs testlist = Document doc" and "\<forall>e\<in>set doc. test_entry e"
  shows "fst (process_regression_list (Suc depth) fs testlist test N root s) = Inr () \<and>
         matched_list (snd (process_regression_list (Suc depth) fs testlist test N root s)) =
           matched_list s @ filter spec_positive (map (spec_override N) (filter (spec_selected test) doc))"
  using assms(1) process_entries_test_nodes [OF assms(2), where depth = depth and fs = fs
     and test = test and N = N and root = root and s = "s\<lparr>effects := logging INFO
       (Format ''Processing regression test list : %s, test: %s''
                [PStr testlist, PStr test]) (effects s)\<rparr>"]
  by (simp add: read_yaml_def)

lemma process_test_node_matched:
  assumes "\<not> has_key e ''import''" and "map_of e ''test'' = Some name"
    and "contains (split_comma test) name \<or> test = ''all''"
    and "map_of e ''iterations'' = Some (PInt K)" and "0 < K"
  shows "fst (process_test_node e test (split_comma test) N s) = Inr () \<and>
         matched_list (snd (process_test_node e test (split_comma test) N s)) =
           matched_list s @ [spec_override N e]"
proof -
  have tn: "test_entry e"
    using assms by (simp add: test_entry_def has_key_def declared_iterations_def)
  have k: "declared_iterations e = Some K"
    using assms(4) by (simp add: declared_iterations_Some)
  have sel: "spec_selected test e"
    using assms(2,3) by (cases name) (auto simp: spec_selected_def)
  show ?thesis
    using process_test_node_test_node [OF tn, of test N s] sel positive_effective [OF k, of N] assms(5)
    by simp
qed

lemma process_test_node_disabled:
  assumes "map_of e0 ''test'' = Some name"
    and "map_of e0 ''iterations'' = Some (PInt k)" and "k \<le> 0"
  shows "process_test_node e0 test mult_test N s = (Inr (), s)"
  using assms
  by (simp add: process_test_node_def getitem_def override_def iterations_positive_def
        append_if_positive_def)

text \<open>
  C3. A document whose nodes are all test entries (no import node), resolved with
  the selection \<^verbatim>\<open>"all"\<close>: the call returns, and the accumulator has grown by exactly
  the entries whose iteration count after the override step is positive, in the
  order of the document. Under any other selection and override the same holds of
  the selected entries. A test entry \<open>e0\<close> whose declared iteration count is zero or
  negative is skipped wherever the loop of \<^verbatim>\<open>process_regression_list\<close> meets it, for
  every selection and override: the loop goes on with the state it had, so nothing
  is appended for \<open>e0\<close>, neither \<open>e0\<close> nor \<open>e0\<close> with another iteration count.
\<close>

theorem resolve_all_without_imports:
  assumes "fs testlist = Document doc" and "\<forall>e\<in>set doc. test_entry e"
    and "\<not> has_key e0 ''import''" and "map_of e0 ''test'' = Some name"
    and "map_of e0 ''iterations'' = Some (PInt k)" and "k \<le> 0"
  shows "fst (process_regression_list (Suc depth) fs testlist ''all'' N root s) = Inr () \<and>
         matched_list (snd (process_regression_list (Suc depth) fs testlist ''all'' N root s)) =
           matched_list s @ filter spec_positive (map (spec_override N) doc) \<and>
         fst (process_regression_list (Suc depth) fs testlist test' N' root s) = Inr () \<and>
         matched_list (snd (process_regression_list (Suc depth) fs testlist test' N' root s)) =
           matched_list s @
             filter spec_positive (map (spec_override N') (filter (spec_selected test') doc)) \<and>
         process_entries depth' fs' (e0 # rest) test' mult_test' N' root' s' =
           process_entries depth' fs' rest test' mult_test' N' root' s' \<and>
         e0 \<notin> set (drop (length (matched_list s'))
                  (matched_list (snd (process_regression_list depth' fs' testlist' test' N' root' s'))))"
proof -
  have sel: "filter (spec_selected ''all'') doc = doc"
    by (simp add: spec_selected_def)
  have notpos: "iterations_positive e0 \<noteq> Inr True"
    using assms(5,6) by (simp add: iterations_positive_def getitem_def)
  obtain new where new:
    "matched_list (snd (process_regression_list depth' fs' testlist' test' N' root' s')) =
       matched_list s' @ new" "\<forall>x\<in>set new. iterations_positive x = Inr True"
    using resolver_appends(1) [of depth' fs' testlist' test' N' root' s'] by blast
  have "e0 \<notin> set new" using new(2) notpos by blast
  moreover have "process_entries depth' fs' (e0 # rest) test' mult_test' N' root' s' =
           process_entries depth' fs' rest test' mult_test' N' root' s'"
    using assms(3) process_test_node_disabled [OF assms(4,5,6), of test' mult_test' N' s']
    by simp
  ultimately show ?thesis
    using process_regression_list_test_nodes [where fs = fs and testlist = testlist and doc = doc
        and depth = depth and test = "''all''" and N = N and root = root and s = s, OF assms(1,2)]
      process_regression_list_test_nodes [where fs = fs and testlist = testlist and doc = doc
        and depth = depth and test = test' and N = N' and root = root and s = s, OF assms(1,2)]
      sel new(1)
    by simp
qed

theorem resolve_all_without_imports_witness:
  "demo_fs ''flat'' = Document [testA, testD, testB] \<and>
   test_entry testA \<and> test_entry testD \<and> test_entry testB \<and>
   \<not> has_key testD ''import'' \<and> map_of testD ''test'' = Some (PStr ''d'') \<and>
   map_of testD ''iterations'' = Some (PInt 0) \<and> (0::int) \<le> 0 \<and>
   fst (process_regression_list (Suc 0) demo_fs ''flat'' ''all'' 5 ''/dv'' s0) = Inr () \<and>
   matched_list (snd (process_regression_list (Suc 0) demo_fs ''flat'' ''all'' 5 ''/dv'' s0)) =
     [[(''test'', PStr ''a''), (''iterations'', PInt 5)],
      [(''test'', PStr ''b''), (''iterations'', PInt 5)]] \<and>
   fst (process_regression_list (Suc 0) demo_fs ''flat'' ''d'' 7 ''/dv'' s0) = Inr () \<and>
   matched_list (snd (process_regression_list (Suc 0) demo_fs ''flat'' ''d'' 7 ''/dv'' s0)) = [] \<and>
   process_entries 3 demo_fs [testD, testB] ''d'' (split_comma ''d'') 7 ''/dv'' s0 =
     process_entries 3 demo_fs [testB] ''d'' (split_comma ''d'') 7 ''/dv'' s0"
proof -
  have h1: "demo_fs ''flat'' = Document [testA, testD, testB]"
    by (simp add: demo_fs_def)
  have h2: "\<forall>e\<in>set [testA, testD, testB]. test_entry e"
    by (simp add: test_entry_def has_key_def declared_iterations_def testA_def testB_def testD_def)
  have h3: "\<not> has_key testD ''import''"
    by (simp add: has_key_def testD_def)
  have h4: "map_of testD ''test'' = Some (PStr ''d'')"
    by (simp add: testD_def)
  have h5: "map_of testD ''iterations'' = Some (PInt 0)"
    by (simp add: testD_def)
  have h6: "(0::int) \<le> 0" by simp
  have d: "split_comma ''d'' = [''d'']" by simp
  have sel: "filter (spec_selected ''d'') [testA, testD, testB] = [testD]"
    by (simp add: spec_selected_def d testA_def testB_def testD_def)
  show ?thesis
    using h1 h2 h3 h4 h5 sel
      resolve_all_without_imports [where fs = demo_fs and testlist = "''flat''"
        and doc = "[testA, testD, testB]" and ?e0.0 = testD and name = "PStr ''d''" and k = 0
        and depth = 0 and N = 5 and root = "''/dv''" and s = s0 and test' = "''d''" and N' = 7
        and depth' = 3 and fs' = demo_fs and rest = "[testB]" and mult_test' = "split_comma ''d''"
        and root' = "''/dv''" and s' = s0 and testlist' = "''flat''", OF h1 h2 h3 h4 h5 h6]
    by (simp add: s0_def spec_positive_def spec_override_def declared_iterations_def setitem_def
          testA_def testB_def testD_def del: split_comma.simps)
qed

text \<open>
  C4. When the loop of \<^verbatim>\<open>process_regression_list\<close> reaches a matched test entry with
  declared iteration count \<open>K > 0\<close>: under a positive override \<open>N\<close> the entry appended
  is the entry with its iteration count set to \<open>N\<close>; under the override \<open>0\<close> it is the
  entry itself, with the count \<open>K\<close>. It stays at that place of the accumulator
  whatever the rest of the document does.
\<close>

theorem override_policy:
  assumes "\<not> has_key e ''import''" and "map_of e ''test'' = Some name"
    and "contains (split_comma test) name \<or> test = ''all''"
    and "map_of e ''iterations'' = Some (PInt K)" and "0 < K"
  shows "(0 < N \<longrightarrow>
            (\<exists>new. matched_list (snd (process_entries depth fs (e # rest) test (split_comma test) N root s)) =
                matched_list s @ setitem e ''iterations'' (PInt N) # new) \<and>
            getitem (setitem e ''iterations'' (PInt N)) ''iterations'' = Inr (PInt N)) \<and>
         (\<exists>new. matched_list (snd (process_entries depth fs (e # rest) test (split_comma test) 0 root s)) =
                matched_list s @ e # new) \<and>
         getitem e ''iterations'' = Inr (PInt K)"
proof -
  have k: "declared_iterations e = Some K"
    using assms(4) by (simp add: declared_iterations_Some)
  have step: "\<exists>new. matched_list (snd (process_entries depth fs (e # rest) test (split_comma test) M root s)) =
                matched_list s @ spec_override M e # new" for M
  proof -
    obtain r s1 where s1: "process_test_node e test (split_comma test) M s = (r, s1)"
      by (cases "process_test_node e test (split_comma test) M s")
    from process_test_node_matched [OF assms, of M s] s1
    have r: "r = Inr ()" and m: "matched_list s1 = matched_list s @ [spec_override M e]"
      by simp_all
    obtain new where "matched_list (snd (process_entries depth fs rest test (split_comma test) M root s1)) =
        matched_list s1 @ new"
      using resolver_appends(2) [of depth fs rest test "split_comma test" M root s1] by blast
    then show ?thesis
      using assms(1) s1 r m by simp
  qed
  have e0: "spec_override 0 e = e" by (simp add: spec_override_def k)
  have eN: "0 < N \<Longrightarrow> spec_override N e = setitem e ''iterations'' (PInt N)"
    using assms(5) by (simp add: spec_override_def k)
  show ?thesis
    using step [of N] step [of 0] e0 eN assms(4)
    by (auto simp: getitem_def map_of_setitem)
qed

theorem override_policy_witness:
  "\<not> has_key testA ''import'' \<and> map_of testA ''test'' = Some (PStr ''a'') \<and>
   (contains (split_comma ''a,c'') (PStr ''a'') \<or> ''a,c'' = ''all'') \<and>
   map_of testA ''iterations'' = Some (PInt 2) \<and> (0::int) < 2 \<and> (0::int) < 7 \<and>
   (\<exists>new. matched_list (snd (process_entries 1 demo_fs [testA, testB] ''a,c'' (split_comma ''a,c'') 7 ''/dv'' s0)) =
       [(''test'', PStr ''a''), (''iterations'', PInt 7)] # new) \<and>
   (\<exists>new. matched_list (snd (process_entries 1 demo_fs [testA, testB] ''a,c'' (split_comma ''a,c'') 0 ''/dv'' s0)) =
       [(''test'', PStr ''a''), (''iterations'', PInt 2)] # new)"
proof -
  have h1: "\<not> has_key testA ''import''" by (simp add: has_key_def testA_def)
  have h2: "map_of testA ''test'' = Some (PStr ''a'')" by (simp add: testA_def)
  have h3: "contains (split_comma ''a,c'') (PStr ''a'') \<or> ''a,c'' = ''all''" by simp
  have h4: "map_of testA ''iterations'' = Some (PInt 2)" by (simp add: testA_def)
  have h5: "(0::int) < 2" by simp
  show ?thesis
    using h1 h2 h3 h4 override_policy [where e = testA and name = "PStr ''a''" and test = "''a,c''" and K = 2 and N = 7
      and depth = 1 and fs = demo_fs and rest = "[testB]" and root = "''/dv''" and s = s0,
      OF h1 h2 h3 h4 h5]
    by (simp add: s0_def setitem_def testA_def)
qed

text \<open>
  C5. A root document \<open>[a, import, b]\<close> whose import names a document \<open>[c]\<close>, all
  three entries with a positive iteration count, resolved with the selection
  \<^verbatim>\<open>"all"\<close>: the accumulator grows by \<open>a\<close>, \<open>c\<close>, \<open>b\<close> in this order (each after the
  override step), so the matches of the import stand where the import node stood.
\<close>

theorem import_expanded_in_place:
  assumes "fs testlist = Document [a, imp, b]"
    and "map_of imp ''import'' = Some (PStr path)"
    and "CHR 0x5C \<notin> set root"
    and "fs (sub_root root path) = Document [c]"
    and "test_entry a \<and> spec_positive a" and "test_entry b \<and> spec_positive b" and "test_entry c \<and> spec_positive c"
  shows "fst (process_regression_list (Suc (Suc depth)) fs testlist ''all'' N root s) = Inr () \<and>
         matched_list (snd (process_regression_list (Suc (Suc depth)) fs testlist ''all'' N root s)) =
           matched_list s @ [spec_override N a, spec_override N c, spec_override N b]"
proof -
  define mt where "mt = split_comma ''all''"
  define s1 where "s1 = s\<lparr>effects := logging INFO
      (Format ''Processing regression test list : %s, test: %s'' [PStr testlist, PStr ''all''])
      (effects s)\<rparr>"
  have keep: "filter spec_positive (map (spec_override N) (filter (spec_selected ''all'') [x])) = [spec_override N x]"
    if "test_entry x \<and> spec_positive x" for x
  proof -
    from that obtain k where k: "declared_iterations x = Some k" and "0 < k"
      by (auto simp: test_entry_def spec_positive_def)
    then show ?thesis
      using positive_effective [OF k, of N] by (simp add: spec_selected_def)
  qed
  have start: "process_regression_list (Suc (Suc depth)) fs testlist ''all'' N root s =
      process_entries (Suc depth) fs [a, imp, b] ''all'' mt N root s1"
    using assms(1) by (simp add: read_yaml_def mt_def s1_def)
  obtain r2 s2 where s2: "process_test_node a ''all'' mt N s1 = (r2, s2)"
    by (cases "process_test_node a ''all'' mt N s1")
  have a: "r2 = Inr ()" "matched_list s2 = matched_list s @ [spec_override N a]"
    using process_test_node_test_node [of a "''all''" N s1] assms(5) keep [of a] s2
    by (simp_all add: mt_def s1_def)
  have a_noimp: "\<not> has_key a ''import''" using assms(5) by (simp add: test_entry_def)
  obtain r3 s3 where s3: "process_regression_list (Suc depth) fs (sub_root root path) ''all'' N root s2 = (r3, s3)"
    by (cases "process_regression_list (Suc depth) fs (sub_root root path) ''all'' N root s2")
  have c: "r3 = Inr ()" "matched_list s3 = matched_list s2 @ [spec_override N c]"
    using process_regression_list_test_nodes [where fs = fs and testlist = "sub_root root path"
      and doc = "[c]" and depth = depth and test = "''all''" and N = N and root = root and s = s2,
      OF assms(4)]
      assms(7) keep [of c] s3 by simp_all
  have b: "fst (process_entries (Suc depth) fs [b] ''all'' mt N root s3) = Inr ()"
     "matched_list (snd (process_entries (Suc depth) fs [b] ''all'' mt N root s3)) =
        matched_list s3 @ [spec_override N b]"
    using process_entries_test_nodes [of "[b]" "Suc depth" fs "''all''" N root s3]
      assms(6) keep [of b] by (simp_all add: mt_def)
  have "process_entries (Suc depth) fs [a, imp, b] ''all'' mt N root s1 =
      process_entries (Suc depth) fs [b] ''all'' mt N root s3"
    using a_noimp s2 a(1) assms(2,3) s3 c(1)
    by (simp add: has_key_def getitem_def re_sub_root_def compile_repl_def)
  then show ?thesis
    using start a(2) c(2) b by simp
qed

theorem import_expanded_in_place_witness:
  "demo_fs ''root'' = Document [testA, [(''import'', PStr ''<riscv_dv_root>/sub'')], testB] \<and>
   map_of [(''import'', PStr ''<riscv_dv_root>/sub'')] ''import'' = Some (PStr ''<riscv_dv_root>/sub'') \<and>
   CHR 0x5C \<notin> set ''/dv'' \<and>
   demo_fs (sub_root ''/dv'' ''<riscv_dv_root>/sub'') = Document [testC] \<and>
   (test_entry testA \<and> spec_positive testA) \<and> (test_entry testB \<and> spec_positive testB) \<and>
   (test_entry testC \<and> spec_positive testC) \<and>
   fst (process_regression_list (Suc (Suc 0)) demo_fs ''root'' ''all'' 0 ''/dv'' s0) = Inr () \<and>
   matched_list (snd (process_regression_list (Suc (Suc 0)) demo_fs ''root'' ''all'' 0 ''/dv'' s0)) =
     [testA, testC, testB]"
proof -
  have h1: "demo_fs ''root'' = Document [testA, [(''import'', PStr ''<riscv_dv_root>/sub'')], testB]"
    by (simp add: demo_fs_def)
  have h2: "map_of [(''import'', PStr ''<riscv_dv_root>/sub'')] ''import'' = Some (PStr ''<riscv_dv_root>/sub'')"
    by simp
  have h3: "CHR 0x5C \<notin> set ''/dv''" by simp
  have h4: "demo_fs (sub_root ''/dv'' ''<riscv_dv_root>/sub'') = Document [testC]"
    by (simp add: demo_fs_def)
  have h5: "test_entry testA \<and> spec_positive testA"
    by (simp add: test_entry_def spec_positive_def has_key_def declared_iterations_def testA_def)
  have h6: "test_entry testB \<and> spec_positive testB"
    by (simp add: test_entry_def spec_positive_def has_key_def declared_iterations_def testB_def)
  have h7: "test_entry testC \<and> spec_positive testC"
    by (simp add: test_entry_def spec_positive_def has_key_def declared_iterations_def testC_def)
  have eff: "spec_override 0 x = x" for x
    by (simp add: spec_override_def split: option.splits)
  show ?thesis
    using h1 h2 h3 h4 h5 h6 h7 import_expanded_in_place [where fs = demo_fs and testlist = "''root''" and a = testA and b = testB and c = testC
      and imp = "[(''import'', PStr ''<riscv_dv_root>/sub'')]" and path = "''<riscv_dv_root>/sub''"
      and root = "''/dv''" and depth = 0 and N = 0 and s = s0, OF h1 h2 h3 h4 h5 h6 h7]
    by (simp add: eff s0_def)
qed

text \<open>
  C10. Every call of \<^verbatim>\<open>process_regression_list\<close>, whatever its arguments and whether it
  returns or raises, leaves the accumulator as it was before the call, followed by
  the entries the call has appended.
\<close>

theorem resolver_only_appends:
  "\<exists>new. matched_list (snd (process_regression_list depth fs testlist test N root s)) =
     matched_list s @ new"
  using resolver_appends(1) [of depth fs testlist test N root s] by blast

theorem resolver_only_appends_witness:
  "\<exists>new. matched_list (snd (process_regression_list 2 demo_fs ''root'' ''all'' 0 ''/dv''
       \<lparr>effects = [], matched_list = [testD]\<rparr>)) = [testD] @ new"
  using resolver_only_appends [of 2 demo_fs "''root''" "''all''" 0 "''/dv''"
      "\<lparr>effects = [], matched_list = [testD]\<rparr>"]
  by simp

end
